theory Spec2Isabelle
  imports Main "HOL-Library.Sublist"
begin

section \<open>Python values and errors\<close>

text \<open>
  Text handled by the logger (\<open>str\<close>) is a \<open>string\<close>; only equality of characters and
  their order inside a character range matter there. Exceptions are values of
  \<open>py_error\<close>, and a call that may raise returns \<open>py_error + 'a\<close>.
  \<open>NotModelled\<close> marks pattern syntax outside the fragment of the \<open>re\<close> module that is
  embedded here; no statement below rests on it.
\<close>

datatype py_error = ReError | IndexError | ValueError | UnicodeEncodeError | NotModelled

definition backslash :: char where
  "backslash = CHR 0x5C"

definition ascii_letter :: "char \<Rightarrow> bool" where
  "ascii_letter c = (let n = (of_char c :: nat) in (65 \<le> n \<and> n \<le> 90) \<or> (97 \<le> n \<and> n \<le> 122))"

definition ascii_digit :: "char \<Rightarrow> bool" where
  "ascii_digit c = (let n = (of_char c :: nat) in 48 \<le> n \<and> n \<le> 57)"

definition is_identifier :: "string \<Rightarrow> bool" where
  "is_identifier s = (case s of [] \<Rightarrow> False
     | c # cs \<Rightarrow> (ascii_letter c \<or> c = CHR ''_'') \<and>
         list_all (\<lambda>d. ascii_letter d \<or> ascii_digit d \<or> d = CHR ''_'') cs)"

text \<open>\<open>sep.join(xs)\<close>\<close>

fun join :: "string \<Rightarrow> string list \<Rightarrow> string" where
  "join sep [] = []"
| "join sep [x] = x"
| "join sep (x # y # zs) = x @ sep @ join sep (y # zs)"

section \<open>The fragment of \<open>re\<close> used by the logger\<close>

subsection \<open>Compiled patterns\<close>

datatype citem = CChar char | CRange char char

datatype atom = ALit char | ASet bool "citem list"

datatype regex = Eps | One atom | Star atom | Cat regex regex | Or regex regex | Grp nat regex

fun seq_of :: "regex list \<Rightarrow> regex" where
  "seq_of [] = Eps"
| "seq_of (x # xs) = Cat x (seq_of xs)"

fun alt_of :: "regex list \<Rightarrow> regex" where
  "alt_of [] = Eps"
| "alt_of [b] = b"
| "alt_of (b # c # bs) = Or b (alt_of (c # bs))"

subsection \<open>Parsing a pattern\<close>

text \<open>
  The parser reads the pattern left to right, one character at a time, as \<open>re\<close>'s own
  parser does. A frame holds the number of the group being read, its finished branches and
  the items of the branch being read; the innermost group is first, the whole pattern
  (group 0) last.
\<close>

datatype pframe = Frame nat "regex list" "regex list"

datatype pmode =
    PNormal
  | POpen | POpenQ | POpenP | PName string
  | SStart | SFirst bool | SBody bool "citem list"
  | SHave bool "citem list" char | SDash bool "citem list" char | SEsc bool "citem list"

datatype pstate = PState pmode "pframe list" nat "(string \<times> nat) list"

fun push_item :: "regex \<Rightarrow> pframe list \<Rightarrow> pframe list" where
  "push_item x [] = []"
| "push_item x (Frame i bs cur # fs) = Frame i bs (cur @ [x]) # fs"

fun repeat_last :: "regex list \<Rightarrow> py_error + regex list" where
  "repeat_last [] = Inl ReError"
| "repeat_last [One a] = Inr [Star a]"
| "repeat_last [Star a] = Inl ReError"
| "repeat_last [x] = Inl NotModelled"
| "repeat_last (x # y # ys) = (case repeat_last (y # ys) of Inl e \<Rightarrow> Inl e | Inr zs \<Rightarrow> Inr (x # zs))"

definition step_normal :: "pframe list \<Rightarrow> nat \<Rightarrow> (string \<times> nat) list \<Rightarrow> char \<Rightarrow> py_error + pstate" where
  "step_normal fs n names c =
    (if c = CHR ''('' then Inr (PState POpen fs n names)
     else if c = CHR '')'' then
       (case fs of
          Frame i bs cur # parent # rest \<Rightarrow>
            Inr (PState PNormal (push_item (Grp i (alt_of (bs @ [seq_of cur]))) (parent # rest)) n names)
        | _ \<Rightarrow> Inl ReError)
     else if c = CHR ''|'' then
       (case fs of
          Frame i bs cur # rest \<Rightarrow> Inr (PState PNormal (Frame i (bs @ [seq_of cur]) [] # rest) n names)
        | [] \<Rightarrow> Inl ReError)
     else if c = CHR ''['' then Inr (PState SStart fs n names)
     else if c = CHR ''*'' then
       (case fs of
          Frame i bs cur # rest \<Rightarrow>
            (case repeat_last cur of Inl e \<Rightarrow> Inl e
             | Inr cur' \<Rightarrow> Inr (PState PNormal (Frame i bs cur' # rest) n names))
        | [] \<Rightarrow> Inl ReError)
     else if c \<in> set ''+?{.^$'' \<or> c = backslash then Inl NotModelled
     else Inr (PState PNormal (push_item (One (ALit c)) fs) n names))"

definition close_set :: "bool \<Rightarrow> citem list \<Rightarrow> pframe list \<Rightarrow> nat \<Rightarrow> (string \<times> nat) list \<Rightarrow> py_error + pstate" where
  "close_set neg items fs n names = Inr (PState PNormal (push_item (One (ASet neg items)) fs) n names)"

definition step_set :: "bool \<Rightarrow> citem list \<Rightarrow> pframe list \<Rightarrow> nat \<Rightarrow> (string \<times> nat) list \<Rightarrow> char \<Rightarrow> py_error + pstate" where
  "step_set neg items fs n names c =
    (if c = CHR '']'' then close_set neg items fs n names
     else if c = backslash then Inr (PState (SEsc neg items) fs n names)
     else Inr (PState (SHave neg items c) fs n names))"

fun step :: "pstate \<Rightarrow> char \<Rightarrow> py_error + pstate" where
  "step (PState PNormal fs n names) c = step_normal fs n names c"
| "step (PState POpen fs n names) c =
    (if c = CHR ''?'' then Inr (PState POpenQ fs n names)
     else step_normal (Frame (Suc n) [] [] # fs) (Suc n) names c)"
| "step (PState POpenQ fs n names) c =
    (if c = CHR ''P'' then Inr (PState POpenP fs n names) else Inl NotModelled)"
| "step (PState POpenP fs n names) c =
    (if c = CHR ''<'' then Inr (PState (PName []) fs n names) else Inl NotModelled)"
| "step (PState (PName nm) fs n names) c =
    (if c \<noteq> CHR ''>'' then Inr (PState (PName (nm @ [c])) fs n names)
     else if nm = [] then Inl ReError
     else if is_identifier nm then
       (case map_of names nm of
          Some i \<Rightarrow> Inl ReError
        | None \<Rightarrow> Inr (PState PNormal (Frame (Suc n) [] [] # fs) (Suc n) (names @ [(nm, Suc n)])))
     else if list_all (\<lambda>d. (of_char d :: nat) < 128) nm then Inl ReError
     else Inl NotModelled)"
| "step (PState SStart fs n names) c =
    (if c = CHR ''^'' then Inr (PState (SFirst True) fs n names)
     else if c = backslash then Inr (PState (SEsc False []) fs n names)
     else Inr (PState (SHave False [] c) fs n names))"
| "step (PState (SFirst neg) fs n names) c =
    (if c = backslash then Inr (PState (SEsc neg []) fs n names)
     else Inr (PState (SHave neg [] c) fs n names))"
| "step (PState (SBody neg items) fs n names) c = step_set neg items fs n names c"
| "step (PState (SHave neg items d) fs n names) c =
    (if c = CHR ''-'' then Inr (PState (SDash neg items d) fs n names)
     else step_set neg (items @ [CChar d]) fs n names c)"
| "step (PState (SDash neg items lo) fs n names) c =
    (if c = CHR '']'' then close_set neg (items @ [CChar lo, CChar CHR ''-'']) fs n names
     else if c = backslash then Inl NotModelled
     else if (of_char c :: nat) < of_char lo then Inl ReError
     else Inr (PState (SBody neg (items @ [CRange lo c])) fs n names))"
| "step (PState (SEsc neg items) fs n names) c =
    (if ascii_letter c \<or> ascii_digit c then Inl NotModelled
     else Inr (PState (SHave neg items c) fs n names))"

fun run :: "pstate \<Rightarrow> string \<Rightarrow> py_error + pstate" where
  "run st [] = Inr st"
| "run st (c # cs) = (case step st c of Inl e \<Rightarrow> Inl e | Inr st' \<Rightarrow> run st' cs)"

fun finish :: "pstate \<Rightarrow> py_error + regex \<times> (string \<times> nat) list" where
  "finish (PState PNormal [Frame i bs cur] n names) = Inr (alt_of (bs @ [seq_of cur]), names)"
| "finish st = Inl ReError"

text \<open>\<open>re.compile(pattern)\<close>: the compiled pattern and its \<open>groupindex\<close>.\<close>

definition re_compile :: "string \<Rightarrow> py_error + regex \<times> (string \<times> nat) list" where
  "re_compile pattern =
    (case run (PState PNormal [Frame 0 [] []] 0 []) pattern of
       Inl e \<Rightarrow> Inl e
     | Inr st \<Rightarrow> finish st)"

subsection \<open>Matching\<close>

text \<open>
  A backtracking matcher: \<open>rmatch r s g\<close> lists, in the order in which \<open>re\<close> tries them,
  the ways \<open>r\<close> matches a prefix of \<open>s\<close>, each as the text left over and the groups set.
  The first one is the match \<open>re\<close> reports.
\<close>

type_synonym groups = "nat \<Rightarrow> string option"

fun citem_has :: "citem \<Rightarrow> char \<Rightarrow> bool" where
  "citem_has (CChar d) c = (c = d)"
| "citem_has (CRange lo hi) c = ((of_char lo :: nat) \<le> of_char c \<and> (of_char c :: nat) \<le> of_char hi)"

fun accepts :: "atom \<Rightarrow> char \<Rightarrow> bool" where
  "accepts (ALit d) c = (c = d)"
| "accepts (ASet neg items) c = (list_ex (\<lambda>i. citem_has i c) items \<noteq> neg)"

fun star_rests :: "atom \<Rightarrow> string \<Rightarrow> string list" where
  "star_rests a [] = [[]]"
| "star_rests a (c # cs) = (if accepts a c then star_rests a cs @ [c # cs] else [c # cs])"

fun rmatch :: "regex \<Rightarrow> string \<Rightarrow> groups \<Rightarrow> (string \<times> groups) list" where
  "rmatch Eps s g = [(s, g)]"
| "rmatch (One a) s g = (case s of [] \<Rightarrow> [] | c # cs \<Rightarrow> if accepts a c then [(cs, g)] else [])"
| "rmatch (Star a) s g = map (\<lambda>s'. (s', g)) (star_rests a s)"
| "rmatch (Cat p q) s g = concat (map (\<lambda>(s', g'). rmatch q s' g') (rmatch p s g))"
| "rmatch (Or p q) s g = rmatch p s g @ rmatch q s g"
| "rmatch (Grp i p) s g =
     map (\<lambda>(s', g'). (s', g'(i \<mapsto> take (length s - length s') s))) (rmatch p s g)"

text \<open>
  The match at the start of \<open>s\<close>: how many characters it takes, and its groups. With
  \<open>must_advance\<close> an empty match is passed over, as \<open>re\<close> does right after an empty match.
\<close>

definition match_here :: "regex \<Rightarrow> bool \<Rightarrow> string \<Rightarrow> (nat \<times> groups) option" where
  "match_here r must_advance s =
    (case filter (\<lambda>(s', g). \<not> must_advance \<or> length s' < length s) (rmatch r s Map.empty) of
       [] \<Rightarrow> None
     | (s', g) # _ \<Rightarrow> Some (length s - length s', g))"

subsection \<open>Replacement templates\<close>

datatype titem = TLit char | TGroup nat

datatype tmode = TNormal | TEsc | TG | TGName string

fun tstep :: "(string \<times> nat) list \<Rightarrow> tmode \<times> titem list \<Rightarrow> char \<Rightarrow> py_error + tmode \<times> titem list" where
  "tstep names (TNormal, items) c =
    (if c = backslash then Inr (TEsc, items) else Inr (TNormal, items @ [TLit c]))"
| "tstep names (TEsc, items) c =
    (if c = CHR ''g'' then Inr (TG, items)
     else if c = backslash then Inr (TNormal, items @ [TLit backslash])
     else if ascii_letter c \<or> ascii_digit c then Inl NotModelled
     else Inr (TNormal, items @ [TLit backslash, TLit c]))"
| "tstep names (TG, items) c =
    (if c = CHR ''<'' then Inr (TGName [], items) else Inl ReError)"
| "tstep names (TGName nm, items) c =
    (if c \<noteq> CHR ''>'' then Inr (TGName (nm @ [c]), items)
     else if nm = [] then Inl ReError
     else if is_identifier nm then
       (case map_of names nm of
          Some i \<Rightarrow> Inr (TNormal, items @ [TGroup i])
        | None \<Rightarrow> Inl IndexError)
     else Inl NotModelled)"

fun trun :: "(string \<times> nat) list \<Rightarrow> tmode \<times> titem list \<Rightarrow> string \<Rightarrow> py_error + tmode \<times> titem list" where
  "trun names st [] = Inr st"
| "trun names st (c # cs) = (case tstep names st c of Inl e \<Rightarrow> Inl e | Inr st' \<Rightarrow> trun names st' cs)"

definition parse_template :: "(string \<times> nat) list \<Rightarrow> string \<Rightarrow> py_error + titem list" where
  "parse_template names repl =
    (case trun names (TNormal, []) repl of
       Inl e \<Rightarrow> Inl e
     | Inr (TNormal, items) \<Rightarrow> Inr items
     | Inr _ \<Rightarrow> Inl ReError)"

fun expand_item :: "groups \<Rightarrow> titem \<Rightarrow> string" where
  "expand_item g (TLit c) = [c]"
| "expand_item g (TGroup i) = (case g i of None \<Rightarrow> [] | Some x \<Rightarrow> x)"

definition expand :: "titem list \<Rightarrow> groups \<Rightarrow> string" where
  "expand t g = concat (map (expand_item g) t)"

subsection \<open>\<open>re.sub\<close>\<close>

text \<open>
  The substitution loop of Python 3.7 and later: at each position the leftmost match is
  replaced and the scan goes on behind it; a character that starts no match is copied.
  After an empty match the same position is tried once more for a match that is not
  empty. At the end of the text an empty match is still replaced, unless the match before
  it was the empty match at that place.
\<close>

fun subx :: "regex \<Rightarrow> titem list \<Rightarrow> string \<Rightarrow> string" where
  "subx r t [] = (case match_here r False [] of None \<Rightarrow> [] | Some (n, g) \<Rightarrow> expand t g)"
| "subx r t (c # cs) =
    (case match_here r False (c # cs) of
       None \<Rightarrow> c # subx r t cs
     | Some (n, g) \<Rightarrow>
         if 0 < n then expand t g @ subx r t (drop (n - 1) cs)
         else expand t g @
           (case match_here r True (c # cs) of
              None \<Rightarrow> c # subx r t cs
            | Some (n', g') \<Rightarrow> expand t g' @ subx r t (drop (n' - 1) cs)))"

text \<open>\<open>re.sub(pattern, repl, string)\<close>: the pattern is compiled first, then the template.\<close>

definition re_sub :: "string \<Rightarrow> string \<Rightarrow> string \<Rightarrow> py_error + string" where
  "re_sub pattern repl s =
    (case re_compile pattern of
       Inl e \<Rightarrow> Inl e
     | Inr (r, names) \<Rightarrow>
         (case parse_template names repl of
            Inl e \<Rightarrow> Inl e
          | Inr t \<Rightarrow> Inr (subx r t s)))"

section \<open>filtered\_logger.py\<close>

text \<open>
  \<open>patterns['extract']\<close> and \<open>patterns['replace']\<close>: the two format strings, filled in.
\<close>

definition patterns_extract :: "string list \<Rightarrow> string \<Rightarrow> string" where
  "patterns_extract fields sep = ''(?P<field>'' @ join ''|'' fields @ '')=[^'' @ sep @ '']*''"

definition patterns_replace :: "string \<Rightarrow> string" where
  "patterns_replace redaction = backslash # ''g<field>='' @ redaction"

definition filter_datum :: "string list \<Rightarrow> string \<Rightarrow> string \<Rightarrow> string \<Rightarrow> py_error + string" where
  "filter_datum fields redaction message separator =
     re_sub (patterns_extract fields separator) (patterns_replace redaction) message"

subsection \<open>The formatter\<close>

definition PII_FIELDS :: "string list" where
  "PII_FIELDS = [''name'', ''email'', ''phone'', ''ssn'', ''password'']"

definition REDACTION :: string where
  "REDACTION = ''***''"

definition FORMAT :: string where
  "FORMAT = ''[HOLBERTON] %(name)s %(levelname)s %(asctime)-15s: %(message)s''"

definition SEPARATOR :: string where
  "SEPARATOR = '';''"

text \<open>
  \<open>RedactingFormatter.format\<close>. The formatter of the \<open>logging\<close> module, which the class
  extends, is a parameter: \<open>render fmt record\<close> stands for
  \<open>logging.Formatter(fmt).format(record)\<close>, the record rendered through the template
  \<open>fmt\<close>, or the exception it raises. \<open>fields\<close> is \<open>self.fields\<close>.
\<close>

definition RedactingFormatter_format ::
  "(string \<Rightarrow> 'r \<Rightarrow> py_error + string) \<Rightarrow> string list \<Rightarrow> 'r \<Rightarrow> py_error + string" where
  "RedactingFormatter_format render fields record =
     (case render FORMAT record of
        Inl e \<Rightarrow> Inl e
      | Inr msg \<Rightarrow> filter_datum fields REDACTION msg SEPARATOR)"

section \<open>Redaction as the specification words it\<close>

text \<open>
  The specification's \<open>redact\<close>: wherever the text \<open>fieldname=\<close> starts, for a name of
  the list, the value behind it, up to the next separator or the end of the message, is
  replaced by the redaction token and \<open>fieldname=\<close> is kept. The message is read from
  left to right, a field name is taken literally, and where several names of the list
  fit, the first of the list is taken.
\<close>

definition field_at :: "string list \<Rightarrow> string \<Rightarrow> string option" where
  "field_at fields s = find (\<lambda>f. prefix (f @ ''='') s) fields"

function redact_spec :: "string list \<Rightarrow> string \<Rightarrow> char \<Rightarrow> string \<Rightarrow> string" where
  "redact_spec fields redaction sep [] = []"
| "redact_spec fields redaction sep (c # cs) =
    (case field_at fields (c # cs) of
       None \<Rightarrow> c # redact_spec fields redaction sep cs
     | Some f \<Rightarrow>
         f @ ''='' @ redaction @
         redact_spec fields redaction sep (dropWhile (\<lambda>x. x \<noteq> sep) (drop (length f) cs)))"
  by pat_completeness auto
termination
proof (relation "measure (\<lambda>(fields, redaction, sep, s). length s)", goal_cases)
  case 1
  show ?case by simp
next
  case (2 fields redaction sep c cs)
  show ?case by simp
next
  case (3 fields redaction sep c cs f)
  have "length (dropWhile (\<lambda>x. x \<noteq> sep) (drop (length f) cs)) \<le> length (drop (length f) cs)"
    by (rule length_dropWhile_le)
  then show ?case by simp
qed

text \<open>The special characters of \<open>re\<close>; a name without them is a literal.\<close>

definition metachar :: "char \<Rightarrow> bool" where
  "metachar c = (c \<in> set ''.^$*+?{}[]|()'' \<or> c = backslash)"

definition literal_name :: "string \<Rightarrow> bool" where
  "literal_name f = list_all (\<lambda>c. \<not> metachar c) f"

definition plain_name :: "string \<Rightarrow> bool" where
  "plain_name f = list_all (\<lambda>c. \<not> metachar c \<and> c \<noteq> CHR ''='') f"

text \<open>
  The pattern that \<open>patterns['extract']\<close> compiles to when the field names are literals:
  group 1, named \<open>field\<close>, with one branch for each name, then \<open>=\<close>, then any run of
  characters other than the separator.
\<close>

definition lit_seq :: "string \<Rightarrow> regex" where
  "lit_seq f = seq_of (map (\<lambda>c. One (ALit c)) f)"

definition value_tail :: "char \<Rightarrow> regex" where
  "value_tail sep = Cat (One (ALit CHR ''='')) (Cat (Star (ASet True [CChar sep])) Eps)"

definition field_pattern :: "string list \<Rightarrow> char \<Rightarrow> regex" where
  "field_pattern fields sep =
     Cat (Grp 1 (alt_of (map lit_seq (if fields = [] then [[]] else fields))))
       (Cat (One (ALit CHR ''='')) (Cat (Star (ASet True [CChar sep])) Eps))"

definition no_equals :: "string list \<Rightarrow> bool" where
  "no_equals fs = list_all (\<lambda>f. CHR ''='' \<notin> set f) fs"

section \<open>encrypt\_password.py\<close>

text \<open>
  A password is a \<open>str\<close>, here the list of its code points, since \<open>encode\<close> depends on
  them; a \<open>bytes\<close> value is a \<open>string\<close>, one character for each byte.
\<close>

type_synonym unicode = "nat list"

type_synonym bytes = string

text \<open>\<open>str.encode('utf-8')\<close>: a surrogate code point cannot be encoded.\<close>

definition surrogate :: "nat \<Rightarrow> bool" where
  "surrogate n = (0xD800 \<le> n \<and> n < 0xE000)"

definition utf8_char :: "nat \<Rightarrow> py_error + bytes" where
  "utf8_char n =
    (if n < 0x80 then Inr [char_of n]
     else if n < 0x800 then Inr [char_of (0xC0 + n div 64), char_of (0x80 + n mod 64)]
     else if surrogate n then Inl UnicodeEncodeError
     else if n < 0x10000 then
       Inr [char_of (0xE0 + n div 4096), char_of (0x80 + n div 64 mod 64), char_of (0x80 + n mod 64)]
     else
       Inr [char_of (0xF0 + n div 262144), char_of (0x80 + n div 4096 mod 64),
            char_of (0x80 + n div 64 mod 64), char_of (0x80 + n mod 64)])"

fun encode_utf8 :: "unicode \<Rightarrow> py_error + bytes" where
  "encode_utf8 [] = Inr []"
| "encode_utf8 (n # ns) =
    (case utf8_char n of
       Inl e \<Rightarrow> Inl e
     | Inr b \<Rightarrow> (case encode_utf8 ns of Inl e \<Rightarrow> Inl e | Inr bs \<Rightarrow> Inr (b @ bs)))"

definition encodable :: "unicode \<Rightarrow> bool" where
  "encodable p = list_all (\<lambda>n. \<not> surrogate n) p"

subsection \<open>The hash function\<close>

text \<open>
  Modelled from the spec: \<open>bcrypt.gensalt\<close>, \<open>bcrypt.hashpw\<close> and \<open>bcrypt.checkpw\<close>, the
  salted adaptive hash function that the module wraps and that is not part of the
  repository. By the specification a hash value is self-describing, the algorithm
  identifier, the cost factor, the salt and the digest encoded together; hashing derives
  the digest from the password under a salt and a cost and never fails; verification
  recomputes the hash with the salt and the cost embedded in the stored hash and compares;
  and verification of a stored hash that is malformed raises an exception. The encoding is
  that of bcrypt: \<open>$2b$\<close>, two digits of cost, \<open>$\<close>, 22 characters of salt, then the
  digest. The one-way function itself is the parameter \<open>kdf\<close>: from the 29 characters
  that hold identifier, cost and salt and from the password it gives the encoded digest.
  The salt characters that \<open>gensalt\<close> draws at random are its argument.
\<close>

definition salt_char :: "char \<Rightarrow> bool" where
  "salt_char c = (ascii_letter c \<or> ascii_digit c \<or> c = CHR ''.'' \<or> c = CHR ''/'')"

definition valid_salt :: "bytes \<Rightarrow> bool" where
  "valid_salt r = (length r = 22 \<and> list_all salt_char r)"

definition digit_value :: "char \<Rightarrow> nat" where
  "digit_value c = of_char c - 48"

definition read_setting :: "bytes \<Rightarrow> bytes option" where
  "read_setting h =
    (let ident = take 4 h; cost = take 2 (drop 4 h); dollar = take 1 (drop 6 h);
         salt = take 22 (drop 7 h);
         rounds = foldl (\<lambda>a c. 10 * a + digit_value c) 0 cost
     in if ident \<in> set [''$2a$'', ''$2b$'', ''$2y$''] \<and> length cost = 2 \<and>
           list_all ascii_digit cost \<and> 4 \<le> rounds \<and> rounds \<le> 31 \<and> dollar = ''$'' \<and>
           valid_salt salt
        then Some (take 29 h) else None)"

definition gensalt :: "bytes \<Rightarrow> bytes" where
  "gensalt r = ''$2b$12$'' @ r"

definition hashpw :: "(bytes \<Rightarrow> bytes \<Rightarrow> bytes) \<Rightarrow> bytes \<Rightarrow> bytes \<Rightarrow> py_error + bytes" where
  "hashpw kdf password salt =
    (case read_setting salt of
       None \<Rightarrow> Inl ValueError
     | Some setting \<Rightarrow> Inr (setting @ kdf setting password))"

definition checkpw :: "(bytes \<Rightarrow> bytes \<Rightarrow> bytes) \<Rightarrow> bytes \<Rightarrow> bytes \<Rightarrow> py_error + bool" where
  "checkpw kdf password hashed_password =
    (case hashpw kdf password hashed_password of
       Inl e \<Rightarrow> Inl e
     | Inr h \<Rightarrow> Inr (h = hashed_password))"

subsection \<open>The two functions of the module\<close>

text \<open>
  \<open>hash_password\<close> and \<open>is_valid\<close>, with the digest function and, for \<open>hash_password\<close>,
  the salt characters drawn by \<open>gensalt()\<close> as arguments. Python evaluates
  \<open>password.encode('utf-8')\<close> before the call of the library; neither function catches
  an exception.
\<close>

definition hash_password :: "(bytes \<Rightarrow> bytes \<Rightarrow> bytes) \<Rightarrow> bytes \<Rightarrow> unicode \<Rightarrow> py_error + bytes" where
  "hash_password kdf r password =
    (case encode_utf8 password of
       Inl e \<Rightarrow> Inl e
     | Inr pw \<Rightarrow> hashpw kdf pw (gensalt r))"

definition is_valid :: "(bytes \<Rightarrow> bytes \<Rightarrow> bytes) \<Rightarrow> bytes \<Rightarrow> unicode \<Rightarrow> py_error + bool" where
  "is_valid kdf hashed_password password =
    (case encode_utf8 password of
       Inl e \<Rightarrow> Inl e
     | Inr pw \<Rightarrow> checkpw kdf pw hashed_password)"

text \<open>\<open>is_valid(hash_password(P), P)\<close>, for the salt characters \<open>r\<close> drawn in the call.\<close>

definition verify_fresh_hash :: "(bytes \<Rightarrow> bytes \<Rightarrow> bytes) \<Rightarrow> bytes \<Rightarrow> unicode \<Rightarrow> py_error + bool" where
  "verify_fresh_hash kdf r password =
    (case hash_password kdf r password of
       Inl e \<Rightarrow> Inl e
     | Inr h \<Rightarrow> is_valid kdf h password)"

section \<open>The pattern and the template of \<open>filter_datum\<close>\<close>

lemma step_normal_literal:
  "\<not> metachar c \<Longrightarrow>
   step_normal fs n names c = Inr (PState PNormal (push_item (One (ALit c)) fs) n names)"
  by (auto simp: step_normal_def metachar_def)

lemma run_append:
  "run st (xs @ ys) = (case run st xs of Inl e \<Rightarrow> Inl e | Inr st' \<Rightarrow> run st' ys)"
  by (induction xs arbitrary: st) (auto split: sum.splits)

lemma run_literal:
  "literal_name f \<Longrightarrow>
   run (PState PNormal (Frame i bs cur # fs) n names) f =
   Inr (PState PNormal (Frame i bs (cur @ map (\<lambda>c. One (ALit c)) f) # fs) n names)"
  by (induction f arbitrary: cur) (auto simp: literal_name_def step_normal_literal)

lemma step_bar:
  "step_normal (Frame i bs cur # fs) n names CHR ''|'' =
   Inr (PState PNormal (Frame i (bs @ [seq_of cur]) [] # fs) n names)"
  by (simp add: step_normal_def)

lemma run_join:
  "list_all literal_name (f # fields) \<Longrightarrow>
   run (PState PNormal (Frame i bs [] # fs) n names) (join ''|'' (f # fields)) =
   Inr (PState PNormal
         (Frame i (bs @ map lit_seq (butlast (f # fields)))
            (map (\<lambda>c. One (ALit c)) (last (f # fields))) # fs) n names)"
proof (induction fields arbitrary: f bs)
  case Nil
  then show ?case by (simp add: run_literal)
next
  case (Cons g hs)
  have "run (PState PNormal (Frame i bs [] # fs) n names) (join ''|'' (f # g # hs)) =
        run (PState PNormal (Frame i (bs @ [lit_seq f]) [] # fs) n names) (join ''|'' (g # hs))"
    using Cons.prems by (simp add: run_append run_literal step_bar lit_seq_def)
  also have "\<dots> = Inr (PState PNormal
         (Frame i ((bs @ [lit_seq f]) @ map lit_seq (butlast (g # hs)))
            (map (\<lambda>c. One (ALit c)) (last (g # hs))) # fs) n names)"
    using Cons.prems by (intro Cons.IH) simp
  finally show ?case by simp
qed

lemma run_header:
  "run (PState PNormal [Frame 0 [] []] 0 []) ''(?P<field>'' =
   Inr (PState PNormal [Frame 1 [] [], Frame 0 [] []] 1 [(''field'', 1)])"
  by (simp add: step_normal_def is_identifier_def ascii_letter_def ascii_digit_def)

lemma run_tail:
  "sep \<noteq> backslash \<Longrightarrow>
   run (PState PNormal [Frame 1 bs cur, Frame 0 [] []] 1 names) ('')=[^'' @ [sep] @ '']*'') =
   Inr (PState PNormal
     [Frame 0 [] [Grp 1 (alt_of (bs @ [seq_of cur])), One (ALit CHR ''=''), Star (ASet True [CChar sep])]] 1 names)"
  by (simp add: step_normal_def step_set_def close_set_def backslash_def)

lemma map_lit_seq_snoc:
  "xs \<noteq> [] \<Longrightarrow>
   map lit_seq (butlast xs) @ [seq_of (map (\<lambda>c. One (ALit c)) (last xs))] = map lit_seq xs"
  by (induction xs) (auto simp: lit_seq_def)

lemma compile_extract:
  assumes "list_all literal_name fields" "sep \<noteq> backslash"
  shows "re_compile (patterns_extract fields [sep]) = Inr (field_pattern fields sep, [(''field'', 1)])"
proof -
  let ?S1 = "PState PNormal [Frame 1 [] [], Frame 0 [] []] 1 [(''field'', 1)]"
  let ?fs = "if fields = [] then [[]] else fields"
  let ?S2 = "PState PNormal [Frame 1 (map lit_seq (butlast ?fs))
               (map (\<lambda>c. One (ALit c)) (last ?fs)), Frame 0 [] []] 1 [(''field'', 1)]"
  let ?S3 = "PState PNormal [Frame 0 [] [Grp 1 (alt_of (map lit_seq ?fs)),
               One (ALit CHR ''=''), Star (ASet True [CChar sep])]] 1 [(''field'', 1)]"
  have j: "run ?S1 (join ''|'' fields) = Inr ?S2"
  proof (cases fields)
    case Nil
    then show ?thesis by simp
  next
    case (Cons f fs)
    then show ?thesis
      using run_join[of f fs 1 "[]" "[Frame 0 [] []]" 1 "[(''field'', 1)]"] assms(1) by simp
  qed
  have "?fs \<noteq> []" by simp
  then have "map lit_seq (butlast ?fs) @ [seq_of (map (\<lambda>c. One (ALit c)) (last ?fs))] = map lit_seq ?fs"
    by (rule map_lit_seq_snoc)
  then have t: "run ?S2 ('')=[^'' @ [sep] @ '']*'') = Inr ?S3"
    using run_tail[OF assms(2), of "map lit_seq (butlast ?fs)" "map (\<lambda>c. One (ALit c)) (last ?fs)" "[(''field'', 1)]"]
    by simp
  define tl where "tl = '')=[^'' @ [sep] @ '']*''"
  have t': "run ?S2 tl = Inr ?S3"
    using t by (simp only: tl_def)
  have "run (PState PNormal [Frame 0 [] []] 0 []) (''(?P<field>'' @ join ''|'' fields @ tl) = Inr ?S3"
    by (simp only: run_append run_header j t' sum.case)
  then show ?thesis
    by (simp only: re_compile_def patterns_extract_def field_pattern_def tl_def sum.case finish.simps alt_of.simps seq_of.simps
        append_Nil)
qed


lemma trun_append:
  "trun names st (xs @ ys) = (case trun names st xs of Inl e \<Rightarrow> Inl e | Inr st' \<Rightarrow> trun names st' ys)"
  by (induction xs arbitrary: st) (auto split: sum.splits)

lemma trun_literal:
  "backslash \<notin> set r \<Longrightarrow> trun names (TNormal, items) r = Inr (TNormal, items @ map TLit r)"
  by (induction r arbitrary: items) auto

lemma trun_header:
  "trun [(''field'', 1)] (TNormal, []) (backslash # ''g<field>='') =
   Inr (TNormal, [TGroup 1, TLit CHR ''=''])"
  by (simp add: backslash_def is_identifier_def ascii_letter_def ascii_digit_def)

lemma parse_replace:
  assumes "backslash \<notin> set redaction"
  shows "parse_template [(''field'', 1)] (patterns_replace redaction) =
         Inr (TGroup 1 # TLit CHR ''='' # map TLit redaction)"
proof -
  have "trun [(''field'', 1)] (TNormal, []) ((backslash # ''g<field>='') @ redaction) =
        Inr (TNormal, [TGroup 1, TLit CHR ''=''] @ map TLit redaction)"
    by (simp only: trun_append trun_header sum.case trun_literal[OF assms])
  then show ?thesis
    by (simp add: parse_template_def patterns_replace_def)
qed

lemma expand_replace:
  "expand (TGroup 1 # TLit CHR ''='' # map TLit redaction) (g(1 \<mapsto> f)) = f @ ''='' @ redaction"
proof -
  have "concat (map (expand_item h) (map TLit r)) = r" for h r
    by (induction r) auto
  then show ?thesis by (simp add: expand_def)
qed

lemma star_rests_shape: "\<exists>rest. star_rests a s = dropWhile (accepts a) s # rest"
  by (induction s) auto

lemma star_rests_length: "r \<in> set (star_rests a s) \<Longrightarrow> length r \<le> length s"
  by (induction s) (auto split: if_splits)

lemma rmatch_lit_seq:
  "rmatch (lit_seq f) s g = (if prefix f s then [(drop (length f) s, g)] else [])"
proof (induction f arbitrary: s)
  case Nil
  then show ?case by (simp add: lit_seq_def)
next
  case (Cons c f)
  then show ?case by (cases s) (auto simp: lit_seq_def)
qed

lemma rmatch_alt_of:
  "bs \<noteq> [] \<Longrightarrow> rmatch (alt_of bs) s g = concat (map (\<lambda>b. rmatch b s g) bs)"
  by (induction bs rule: alt_of.induct) auto

lemma rmatch_field_branch:
  "rmatch (Cat (Grp i (lit_seq f)) (value_tail sep)) s g =
   (if prefix (f @ ''='') s
    then map (\<lambda>r. (r, g(i \<mapsto> f))) (star_rests (ASet True [CChar sep]) (drop (Suc (length f)) s))
    else [])"
proof (cases "prefix f s")
  case False
  then have "\<not> prefix (f @ ''='') s"
    using append_prefixD by blast
  with False show ?thesis by (simp add: rmatch_lit_seq)
next
  case True
  then obtain r where s: "s = f @ r" by (auto simp: prefix_def)
  show ?thesis
  proof (cases r)
    case Nil
    with s show ?thesis by (simp add: rmatch_lit_seq value_tail_def)
  next
    case (Cons c cs)
    with s show ?thesis
      by (auto simp: rmatch_lit_seq value_tail_def comp_def)
  qed
qed

lemma rmatch_field_pattern:
  assumes "fs \<noteq> []"
  shows "rmatch (Cat (Grp i (alt_of (map lit_seq fs))) (value_tail sep)) s g =
         concat (map (\<lambda>f. rmatch (Cat (Grp i (lit_seq f)) (value_tail sep)) s g) fs)"
  using assms
proof (induction fs rule: list_nonempty_induct)
  case (single f)
  then show ?case by simp
next
  case (cons f fs)
  then obtain h hs where "fs = h # hs" by (cases fs) auto
  with cons show ?case by simp
qed


lemma first_of_branches:
  assumes "\<And>f. Q f \<Longrightarrow> F f \<noteq> []"
    and "\<And>f y. Q f \<Longrightarrow> y \<in> set (F f) \<Longrightarrow> P y"
  shows "(case filter P (concat (map (\<lambda>f. if Q f then F f else []) fs)) of
            [] \<Rightarrow> None | y # _ \<Rightarrow> Some (h y)) =
         (case find Q fs of None \<Rightarrow> None | Some f \<Rightarrow> Some (h (hd (F f))))"
proof (induction fs)
  case Nil
  then show ?case by simp
next
  case (Cons f fs)
  show ?case
  proof (cases "Q f")
    case True
    then obtain y ys where F: "F f = y # ys"
      using assms(1) by (cases "F f") auto
    have "P y"
      using assms(2)[OF True, of y] F by simp
    with True F show ?thesis by simp
  next
    case False
    with Cons show ?thesis by simp
  qed
qed

lemma accepts_not_sep: "accepts (ASet True [CChar sep]) = (\<lambda>x. x \<noteq> sep)"
  by (auto simp: fun_eq_iff)

lemma field_pattern_nonempty:
  "fs \<noteq> [] \<Longrightarrow> field_pattern fs sep = Cat (Grp 1 (alt_of (map lit_seq fs))) (value_tail sep)"
  by (simp add: field_pattern_def value_tail_def)

lemma match_here_field_pattern:
  assumes "fs \<noteq> []"
  shows "match_here (field_pattern fs sep) adv s =
     (case field_at fs s of
        None \<Rightarrow> None
      | Some f \<Rightarrow>
          Some (length s - length (dropWhile (\<lambda>x. x \<noteq> sep) (drop (Suc (length f)) s)), [1 \<mapsto> f]))"
proof -
  let ?A = "ASet True [CChar sep]"
  let ?Q = "\<lambda>f :: string. prefix (f @ ''='') s"
  let ?F = "\<lambda>f :: string. map (\<lambda>r. (r, [(1::nat) \<mapsto> f])) (star_rests ?A (drop (Suc (length f)) s))"
  let ?P = "\<lambda>(s', g :: groups). \<not> adv \<or> length s' < length s"
  let ?h = "\<lambda>(s', g :: groups). (length s - length s', g)"
  have L: "rmatch (field_pattern fs sep) s Map.empty = concat (map (\<lambda>f. if ?Q f then ?F f else []) fs)"
    unfolding field_pattern_nonempty[OF assms] rmatch_field_pattern[OF assms] rmatch_field_branch
    by simp
  have ne: "?F f \<noteq> []" for f :: string
    using star_rests_shape[of ?A "drop (Suc (length f)) s"] by auto
  have adv: "?P y" if "?Q f" "y \<in> set (?F f)" for f :: string and y
  proof -
    from that(2) obtain r where y: "y = (r, [(1::nat) \<mapsto> f])"
      and r: "r \<in> set (star_rests ?A (drop (Suc (length f)) s))" by auto
    from that(1) have "Suc (length f) \<le> length s"
      using prefix_length_le by fastforce
    with star_rests_length[OF r] have "length r < length s" by simp
    with y show ?thesis by simp
  qed
  have hd: "hd (?F f) = (dropWhile (\<lambda>x. x \<noteq> sep) (drop (Suc (length f)) s), [(1::nat) \<mapsto> f])" for f :: string
    using star_rests_shape[of ?A "drop (Suc (length f)) s"] by (auto simp: accepts_not_sep)
  have *: "match_here (field_pattern fs sep) adv s =
        (case find ?Q fs of None \<Rightarrow> None | Some f \<Rightarrow> Some (?h (hd (?F f))))"
    unfolding match_here_def L
    using first_of_branches[of ?Q ?F ?P ?h fs, OF ne adv]
    by (simp add: case_prod_unfold cong: list.case_cong)
  show ?thesis
    unfolding * field_at_def hd prod.case ..
qed

lemma field_at_Nil: "field_at fs [] = None"
  by (induction fs) (auto simp: field_at_def)

lemma drop_to_suffix: "suffix ys xs \<Longrightarrow> drop (length xs - length ys) xs = ys"
  by (auto simp: suffix_def)

lemma subx_redact:
  assumes "fs \<noteq> []"
  shows "subx (field_pattern fs sep) (TGroup 1 # TLit CHR ''='' # map TLit red) s =
         redact_spec fs red sep s"
  using assms
proof (induction fs red sep s rule: redact_spec.induct)
  case (1 fields redaction sep)
  then show ?case
    by (simp add: match_here_field_pattern field_at_Nil)
next
  case (2 fields redaction sep c cs)
  let ?T = "TGroup 1 # TLit CHR ''='' # map TLit redaction"
  show ?case
  proof (cases "field_at fields (c # cs)")
    case None
    with 2 show ?thesis
      by (simp add: match_here_field_pattern)
  next
    case (Some f)
    let ?D = "dropWhile (\<lambda>x. x \<noteq> sep) (drop (length f) cs)"
    have suf: "suffix ?D cs"
      by (meson suffix_drop suffix_dropWhile suffix_order.order_trans)
    then have len: "length ?D \<le> length cs"
      by (rule suffix_length_le)
    have d: "drop (length cs - length ?D) cs = ?D"
      using suf by (rule drop_to_suffix)
    have IH: "subx (field_pattern fields sep) ?T ?D = redact_spec fields redaction sep ?D"
      using 2 Some by simp
    have m: "match_here (field_pattern fields sep) False (c # cs) =
             Some (Suc (length cs) - length ?D, [1 \<mapsto> f])"
      using 2(3) Some by (simp add: match_here_field_pattern)
    have pos: "0 < Suc (length cs) - length ?D" and pred: "Suc (length cs) - length ?D - 1 = length cs - length ?D"
      using len by simp_all
    have e: "expand ?T [1 \<mapsto> f] = f @ ''='' @ redaction"
      by (rule expand_replace)
    have "subx (field_pattern fields sep) ?T (c # cs) =
          expand ?T [1 \<mapsto> f] @ subx (field_pattern fields sep) ?T ?D"
      by (simp only: subx.simps m option.case prod.case pos if_True pred d)
    also have "\<dots> = f @ ''='' @ redaction @ redact_spec fields redaction sep ?D"
      unfolding e IH by simp
    finally show ?thesis using Some by simp
  qed
qed


lemma filter_datum_literal:
  assumes "fields \<noteq> []" "list_all literal_name fields"
    and "backslash \<notin> set redaction" "sep \<noteq> backslash"
  shows "filter_datum fields redaction message [sep] = Inr (redact_spec fields redaction sep message)"
  unfolding filter_datum_def re_sub_def compile_extract[OF assms(2,4)] sum.case prod.case
    parse_replace[OF assms(3)] subx_redact[OF assms(1)] ..

lemma field_at_Some: "field_at fs s = Some f \<Longrightarrow> f \<in> set fs \<and> prefix (f @ ''='') s"
  unfolding field_at_def by (auto simp: find_Some_iff)

lemma takeWhile_upto: "c \<notin> set f \<Longrightarrow> takeWhile (\<lambda>x. x \<noteq> c) (f @ c # ys) = f"
  by (induction f) auto

lemma prefix_key_iff:
  assumes "CHR ''='' \<notin> set f"
  shows "prefix (f @ ''='') t \<longleftrightarrow> CHR ''='' \<in> set t \<and> f = takeWhile (\<lambda>x. x \<noteq> CHR ''='') t"
proof
  assume "prefix (f @ ''='') t"
  then obtain r where "t = f @ CHR ''='' # r" by (auto simp: prefix_def)
  with assms show "CHR ''='' \<in> set t \<and> f = takeWhile (\<lambda>x. x \<noteq> CHR ''='') t"
    by (auto simp: takeWhile_upto)
next
  assume a: "CHR ''='' \<in> set t \<and> f = takeWhile (\<lambda>x. x \<noteq> CHR ''='') t"
  let ?d = "dropWhile (\<lambda>x. x \<noteq> CHR ''='') t"
  from a have "?d \<noteq> []" by auto
  then obtain x r where d: "?d = x # r" by (cases ?d) auto
  then have "x = CHR ''=''"
    using hd_dropWhile[of "\<lambda>x. x \<noteq> CHR ''=''" t] by auto
  with d a have "t = f @ CHR ''='' # r"
    by (metis takeWhile_dropWhile_id)
  then show "prefix (f @ ''='') t" by simp
qed

lemma field_at_key:
  assumes "no_equals fs"
  shows "field_at fs t =
         (if CHR ''='' \<in> set t then find (\<lambda>f. f = takeWhile (\<lambda>x. x \<noteq> CHR ''='') t) fs else None)"
proof -
  have "find (\<lambda>f. prefix (f @ ''='') t) fs =
        find (\<lambda>f. CHR ''='' \<in> set t \<and> f = takeWhile (\<lambda>x. x \<noteq> CHR ''='') t) fs"
    using assms by (intro find_cong) (auto simp: no_equals_def list_all_iff prefix_key_iff)
  moreover have "find (\<lambda>f. False) fs = None" by (induction fs) auto
  ultimately show ?thesis by (simp add: field_at_def)
qed

lemma redact_spec_field:
  assumes "field_at fs (f @ CHR ''='' # w) = Some f"
  shows "redact_spec fs red sep (f @ CHR ''='' # w) =
         f @ ''='' @ red @ redact_spec fs red sep (dropWhile (\<lambda>x. x \<noteq> sep) w)"
proof -
  obtain c cs where s: "f @ CHR ''='' # w = c # cs"
    by (cases "f @ CHR ''='' # w") auto
  then have "drop (Suc (length f)) (c # cs) = w"
    by (metis append.assoc append_Cons append_Nil append_eq_conv_conj length_append_singleton)
  then have "drop (length f) cs = w" by simp
  then show ?thesis
    using assms unfolding s by simp
qed

lemma redact_key:
  assumes "no_equals fs"
  shows "takeWhile (\<lambda>x. x \<noteq> CHR ''='') (redact_spec fs red sep t) = takeWhile (\<lambda>x. x \<noteq> CHR ''='') t \<and>
         (CHR ''='' \<in> set (redact_spec fs red sep t)) = (CHR ''='' \<in> set t)"
  using assms
proof (induction fs red sep t rule: redact_spec.induct)
  case (1 fields redaction sep)
  then show ?case by simp
next
  case (2 fields redaction sep c cs)
  show ?case
  proof (cases "field_at fields (c # cs)")
    case None
    with 2 show ?thesis by auto
  next
    case (Some f)
    then have f: "f \<in> set fields" and p: "prefix (f @ ''='') (c # cs)"
      using field_at_Some by auto
    from f 2(3) have ne: "CHR ''='' \<notin> set f"
      by (auto simp: no_equals_def list_all_iff)
    from p ne have m2: "CHR ''='' \<in> set (c # cs)"
      and k2: "f = takeWhile (\<lambda>x. x \<noteq> CHR ''='') (c # cs)"
      using prefix_key_iff by blast+
    let ?D = "dropWhile (\<lambda>x. x \<noteq> sep) (drop (length f) cs)"
    have R: "redact_spec fields redaction sep (c # cs) =
             f @ CHR ''='' # (redaction @ redact_spec fields redaction sep ?D)"
      using Some by simp
    have k1: "takeWhile (\<lambda>x. x \<noteq> CHR ''='') (redact_spec fields redaction sep (c # cs)) = f"
      unfolding R using ne by (rule takeWhile_upto)
    have m1: "CHR ''='' \<in> set (redact_spec fields redaction sep (c # cs))"
      unfolding R by simp
    from k1 k2 have "takeWhile (\<lambda>x. x \<noteq> CHR ''='') (redact_spec fields redaction sep (c # cs)) =
                     takeWhile (\<lambda>x. x \<noteq> CHR ''='') (c # cs)"
      by (rule trans)
    with m1 m2 show ?thesis by blast
  qed
qed


lemma redact_head:
  assumes "sep \<noteq> CHR ''=''" "t = [] \<or> hd t = sep"
  shows "redact_spec fs red sep t = [] \<or> hd (redact_spec fs red sep t) = sep"
proof (cases t)
  case Nil
  then show ?thesis by simp
next
  case (Cons c cs)
  with assms(2) have c: "c = sep" by simp
  show ?thesis
  proof (cases "field_at fs (c # cs)")
    case None
    with Cons c show ?thesis by simp
  next
    case (Some g)
    then have "prefix (g @ ''='') (sep # cs)"
      using field_at_Some c by blast
    with assms(1) have "g \<noteq> [] \<and> hd g = sep"
      by (cases g) auto
    with Some Cons show ?thesis by simp
  qed
qed

lemma dropWhile_head: "t = [] \<or> hd t = sep \<Longrightarrow> dropWhile (\<lambda>x. x \<noteq> sep) t = t"
  by (cases t) auto

lemma dropWhile_sep_head:
  "dropWhile (\<lambda>x. x \<noteq> sep) w = [] \<or> hd (dropWhile (\<lambda>x. x \<noteq> sep) w) = sep"
  using hd_dropWhile[of "\<lambda>x. x \<noteq> sep" w] by auto

lemma redact_idem:
  assumes "no_equals fs" "sep \<noteq> CHR ''=''" "sep \<notin> set red"
  shows "redact_spec fs red sep (redact_spec fs red sep s) = redact_spec fs red sep s"
  using assms
proof (induction fs red sep s rule: redact_spec.induct)
  case (1 fields redaction sep)
  then show ?case by simp
next
  case (2 fields redaction sep c cs)
  let ?R = "redact_spec fields redaction sep"
  let ?K = "\<lambda>t. takeWhile (\<lambda>x. x \<noteq> CHR ''='') t"
  note ne = \<open>no_equals fields\<close>
  show ?case
  proof (cases "field_at fields (c # cs)")
    case None
    have "?K (c # ?R cs) = ?K (c # cs)" "(CHR ''='' \<in> set (c # ?R cs)) = (CHR ''='' \<in> set (c # cs))"
      using redact_key[OF ne, of redaction sep cs] by auto
    then have "field_at fields (c # ?R cs) = field_at fields (c # cs)"
      unfolding field_at_key[OF ne] by (simp only:)
    with None have "?R (c # ?R cs) = c # ?R (?R cs)" by simp
    with None 2 show ?thesis by simp
  next
    case (Some f)
    let ?D = "dropWhile (\<lambda>x. x \<noteq> sep) (drop (length f) cs)"
    have R: "?R (c # cs) = f @ CHR ''='' # (redaction @ ?R ?D)"
      using Some by simp
    have IH: "?R (?R ?D) = ?R ?D"
      using 2(2)[OF Some] 2(3-5) by simp
    have "?K (?R (c # cs)) = ?K (c # cs)" "(CHR ''='' \<in> set (?R (c # cs))) = (CHR ''='' \<in> set (c # cs))"
      using redact_key[OF ne, of redaction sep "c # cs"] by auto
    then have "field_at fields (?R (c # cs)) = field_at fields (c # cs)"
      unfolding field_at_key[OF ne] by (simp only:)
    with Some have fa: "field_at fields (f @ CHR ''='' # (redaction @ ?R ?D)) = Some f"
      unfolding R by simp
    have "?R ?D = [] \<or> hd (?R ?D) = sep"
      using redact_head[OF \<open>sep \<noteq> CHR ''=''\<close> dropWhile_sep_head] .
    then have "dropWhile (\<lambda>x. x \<noteq> sep) (?R ?D) = ?R ?D"
      by (rule dropWhile_head)
    moreover have "dropWhile (\<lambda>x. x \<noteq> sep) (redaction @ ?R ?D) = dropWhile (\<lambda>x. x \<noteq> sep) (?R ?D)"
      using \<open>sep \<notin> set redaction\<close> by (auto simp: dropWhile_append)
    ultimately have d: "dropWhile (\<lambda>x. x \<noteq> sep) (redaction @ ?R ?D) = ?R ?D" by simp
    have "?R (?R (c # cs)) = f @ ''='' @ redaction @ ?R (?R ?D)"
      unfolding R redact_spec_field[OF fa] d ..
    also have "\<dots> = ?R (c # cs)"
      unfolding IH R by simp
    finally show ?thesis .
  qed
qed

text \<open>
  An entry \<open>f=v\<close> of a listed field in the middle of a message: the text in front of it,
  when it ends with a separator, and the text behind it are redacted on their own.
\<close>

lemma field_at_append:
  assumes "list_all (\<lambda>f. sep \<notin> set f) fs" and "sep \<noteq> CHR ''=''" and "s \<noteq> []" and "last s = sep"
  shows "field_at fs (s @ t) = field_at fs s"
proof -
  have "prefix (f @ ''='') (s @ t) \<longleftrightarrow> prefix (f @ ''='') s" if f: "f \<in> set fs" for f
  proof
    assume "prefix (f @ ''='') (s @ t)"
    then consider "prefix (f @ ''='') s" | us where "f @ ''='' = s @ us"
      by (auto simp: prefix_append)
    then show "prefix (f @ ''='') s"
    proof cases
      case 1
      then show ?thesis .
    next
      case 2
      have "sep \<in> set s" using assms(3,4) last_in_set by blast
      then have "sep \<in> set (f @ ''='')" unfolding 2 by simp
      with assms(1,2) f show ?thesis by (auto simp: list_all_iff)
    qed
  next
    assume "prefix (f @ ''='') s"
    then show "prefix (f @ ''='') (s @ t)" by (rule prefix_prefix)
  qed
  then show ?thesis
    unfolding field_at_def by (intro find_cong) auto
qed

lemma redact_spec_append:
  assumes "list_all (\<lambda>f. sep \<notin> set f) fs" and "sep \<noteq> CHR ''=''" and "a = [] \<or> last a = sep"
  shows "redact_spec fs red sep (a @ t) = redact_spec fs red sep a @ redact_spec fs red sep t"
  using assms(3)
proof (induction "length a" arbitrary: a rule: less_induct)
  case less
  show ?case
  proof (cases a)
    case Nil
    then show ?thesis by simp
  next
    case (Cons c cs)
    with less.prems have l: "last (c # cs) = sep" by simp
    have fa: "field_at fs ((c # cs) @ t) = field_at fs (c # cs)"
      using assms(1,2) _ l by (rule field_at_append) simp
    show ?thesis
    proof (cases "field_at fs (c # cs)")
      case None
      have "cs = [] \<or> last cs = sep" using l by (cases cs) auto
      then have "redact_spec fs red sep (cs @ t) = redact_spec fs red sep cs @ redact_spec fs red sep t"
        using less.hyps[of cs] Cons by simp
      with None fa show ?thesis unfolding Cons by simp
    next
      case (Some f)
      then obtain rest where r: "c # cs = f @ CHR ''='' # rest"
        using field_at_Some[OF Some] by (auto simp: prefix_def)
      have rne: "rest \<noteq> []" using l assms(2) unfolding r by auto
      then have lr: "last rest = sep" using l unfolding r by simp
      let ?D = "dropWhile (\<lambda>x. x \<noteq> sep) rest"
      have sr: "sep \<in> set rest" using rne lr last_in_set by blast
      then have d: "dropWhile (\<lambda>x. x \<noteq> sep) (rest @ t) = ?D @ t"
        by (intro dropWhile_append1) auto
      have "?D \<noteq> []" using sr by auto
      then have "last ?D = sep"
        using lr by (metis last_appendR takeWhile_dropWhile_id)
      moreover have "length ?D < length a"
        using length_dropWhile_le[of "\<lambda>x. x \<noteq> sep" rest] Cons r
        by (metis length_append length_Cons le_imp_less_Suc trans_le_add2 add_Suc_right)
      ultimately have IH: "redact_spec fs red sep (?D @ t) = redact_spec fs red sep ?D @ redact_spec fs red sep t"
        using less.hyps[of ?D] by simp
      have 1: "field_at fs (f @ CHR ''='' # rest) = Some f" using Some r by simp
      have 2: "field_at fs (f @ CHR ''='' # (rest @ t)) = Some f" using fa Some r by simp
      have "redact_spec fs red sep ((c # cs) @ t) = redact_spec fs red sep (f @ CHR ''='' # (rest @ t))"
        using r by simp
      also have "\<dots> = f @ ''='' @ red @ redact_spec fs red sep (?D @ t)"
        unfolding redact_spec_field[OF 2] d ..
      also have "\<dots> = redact_spec fs red sep (f @ CHR ''='' # rest) @ redact_spec fs red sep t"
        unfolding redact_spec_field[OF 1] IH by simp
      finally show ?thesis unfolding Cons r .
    qed
  qed
qed

lemma find_eq_Some: "f \<in> set fs \<Longrightarrow> find (\<lambda>g. g = f) fs = Some f"
  by (induction fs) auto

lemma redact_spec_listed:
  assumes "no_equals fs" and "f \<in> set fs" and "sep \<notin> set v" and "b = [] \<or> hd b = sep"
  shows "redact_spec fs red sep (f @ CHR ''='' # v @ b) = f @ ''='' @ red @ redact_spec fs red sep b"
proof -
  have ne: "CHR ''='' \<notin> set f"
    using assms(1,2) by (auto simp: no_equals_def list_all_iff)
  have "field_at fs (f @ CHR ''='' # v @ b) = Some f"
    unfolding field_at_key[OF assms(1)] using ne assms(2)
    by (simp add: takeWhile_upto find_eq_Some)
  moreover have "dropWhile (\<lambda>x. x \<noteq> sep) (v @ b) = dropWhile (\<lambda>x. x \<noteq> sep) b"
    using assms(3) by (induction v) auto
  then have "dropWhile (\<lambda>x. x \<noteq> sep) (v @ b) = b"
    using dropWhile_head[OF assms(4)] by simp
  ultimately show ?thesis
    by (simp add: redact_spec_field)
qed

lemma redact_spec_entry:
  assumes "no_equals fs" and "f \<in> set fs" and "CHR ''='' \<notin> set w" and "sep \<notin> set v"
    and "b = [] \<or> hd b = sep"
  shows "redact_spec fs red sep (w @ f @ CHR ''='' # v @ b) =
         w @ f @ ''='' @ red @ redact_spec fs red sep b"
  using assms(3)
proof (induction w)
  case Nil
  then show ?case using redact_spec_listed[OF assms(1,2,4,5)] by simp
next
  case (Cons c w)
  let ?k = "(c # w) @ f"
  have ne: "CHR ''='' \<notin> set ?k"
    using Cons.prems assms(1,2) by (auto simp: no_equals_def list_all_iff)
  show ?case
  proof (cases "?k \<in> set fs")
    case True
    from redact_spec_listed[OF assms(1) True assms(4,5), of red] show ?thesis by simp
  next
    case False
    have "takeWhile (\<lambda>x. x \<noteq> CHR ''='') (?k @ CHR ''='' # v @ b) = ?k"
      using ne by (rule takeWhile_upto)
    then have "field_at fs (c # w @ f @ CHR ''='' # v @ b) = find (\<lambda>g. g = ?k) fs"
      unfolding field_at_key[OF assms(1)] by simp
    also have "\<dots> = None" using False by (auto simp: find_None_iff)
    finally have "field_at fs (c # w @ f @ CHR ''='' # v @ b) = None" .
    then show ?thesis using Cons by simp
  qed
qed

section \<open>Encoding and hashing\<close>

lemma utf8_char_ok: "\<not> surrogate n \<Longrightarrow> \<exists>b. utf8_char n = Inr b"
  by (simp add: utf8_char_def)

lemma utf8_char_surrogate: "surrogate n \<Longrightarrow> utf8_char n = Inl UnicodeEncodeError"
  by (simp add: utf8_char_def surrogate_def)

lemma encode_utf8_ok: "encodable p \<Longrightarrow> \<exists>b. encode_utf8 p = Inr b"
proof (induction p)
  case Nil
  then show ?case by simp
next
  case (Cons n ns)
  then obtain b bs where "utf8_char n = Inr b" "encode_utf8 ns = Inr bs"
    using utf8_char_ok[of n] by (auto simp: encodable_def)
  then show ?case by simp
qed

lemma encode_utf8_fails: "\<not> encodable p \<Longrightarrow> encode_utf8 p = Inl UnicodeEncodeError"
proof (induction p)
  case Nil
  then show ?case by (simp add: encodable_def)
next
  case (Cons n ns)
  show ?case
  proof (cases "surrogate n")
    case True
    then show ?thesis by (simp add: utf8_char_surrogate)
  next
    case False
    then obtain b where "utf8_char n = Inr b"
      using utf8_char_ok by blast
    moreover from False Cons.prems have "\<not> encodable ns"
      by (simp add: encodable_def)
    ultimately show ?thesis using Cons.IH by simp
  qed
qed

lemma read_setting_length:
  assumes "read_setting h = Some s"
  shows "s = take 29 h \<and> 29 \<le> length h"
proof -
  from assms have "valid_salt (take 22 (drop 7 h))" and s: "s = take 29 h"
    by (auto simp: read_setting_def Let_def split: if_splits)
  then have "length (take 22 (drop 7 h)) = 22"
    by (simp add: valid_salt_def)
  then have "29 \<le> length h" by simp
  with s show ?thesis by simp
qed

lemma take_drop_prefix: "j + k \<le> length s \<Longrightarrow> take k (drop j (s @ x)) = take k (drop j s)"
  by simp

lemma read_setting_prefix:
  assumes "length s = 29"
  shows "read_setting (s @ x) = (case read_setting s of None \<Rightarrow> None | Some _ \<Rightarrow> Some s)"
proof -
  have a: "take 4 (s @ x) = take 4 s" "take 29 (s @ x) = s" "take 29 s = s"
    using assms by simp_all
  have b: "take 2 (drop 4 (s @ x)) = take 2 (drop 4 s)"
    "take 1 (drop 6 (s @ x)) = take 1 (drop 6 s)"
    "take 22 (drop 7 (s @ x)) = take 22 (drop 7 s)"
    using assms by (simp_all only: take_drop_prefix)
  show ?thesis
    unfolding read_setting_def Let_def a b by simp
qed

lemma read_setting_stable:
  assumes "read_setting h = Some s"
  shows "read_setting (s @ d) = Some s"
proof -
  from read_setting_length[OF assms] have s: "s = take 29 h" and len: "29 \<le> length h"
    by simp_all
  then have ls: "length s = 29" by simp
  have "h = s @ drop 29 h"
    using s by simp
  then have "read_setting h = (case read_setting s of None \<Rightarrow> None | Some _ \<Rightarrow> Some s)"
    using read_setting_prefix[OF ls, of "drop 29 h"] by simp
  with assms obtain a where a: "read_setting s = Some a"
    by (cases "read_setting s") simp_all
  from read_setting_length[OF a] ls have "a = s" by simp
  with a have "read_setting s = Some s" by simp
  then show ?thesis
    using read_setting_prefix[OF ls, of d] by simp
qed

lemma read_setting_gensalt: "valid_salt r \<Longrightarrow> read_setting (gensalt r) = Some (gensalt r)"
  by (simp add: read_setting_def gensalt_def valid_salt_def ascii_digit_def digit_value_def)

lemma hashpw_ok:
  "read_setting salt = Some s \<Longrightarrow> hashpw kdf pw salt = Inr (s @ kdf s pw)"
  by (simp add: hashpw_def)

lemma checkpw_own_hash:
  assumes "hashpw kdf pw salt = Inr h"
  shows "checkpw kdf pw h = Inr True"
proof -
  from assms obtain s where s: "read_setting salt = Some s" and h: "h = s @ kdf s pw"
    by (auto simp: hashpw_def split: option.splits)
  from read_setting_stable[OF s] have "read_setting h = Some s"
    unfolding h .
  then show ?thesis
    by (simp add: checkpw_def hashpw_def h)
qed

lemma hash_password_ok:
  assumes "valid_salt r" "encodable P"
  shows "\<exists>pw. encode_utf8 P = Inr pw \<and> hash_password kdf r P = Inr (gensalt r @ kdf (gensalt r) pw)"
proof -
  from encode_utf8_ok[OF assms(2)] obtain pw where "encode_utf8 P = Inr pw" ..
  then show ?thesis
    by (simp add: hash_password_def hashpw_ok[OF read_setting_gensalt[OF assms(1)]])
qed

lemma verify_own_hash:
  assumes "valid_salt r" "encodable P"
  shows "verify_fresh_hash kdf r P = Inr True"
proof -
  from encode_utf8_ok[OF assms(2)] obtain pw where pw: "encode_utf8 P = Inr pw" ..
  have h: "hashpw kdf pw (gensalt r) = Inr (gensalt r @ kdf (gensalt r) pw)"
    by (rule hashpw_ok[OF read_setting_gensalt[OF assms(1)]])
  show ?thesis
    by (simp add: verify_fresh_hash_def hash_password_def is_valid_def pw h checkpw_own_hash[OF h])
qed


lemma is_valid_outcomes:
  "(encodable p \<and> read_setting h \<noteq> None \<longrightarrow> (\<exists>b. is_valid kdf h p = Inr b)) \<and>
   (encodable p \<and> read_setting h = None \<longrightarrow> is_valid kdf h p = Inl ValueError) \<and>
   (\<not> encodable p \<longrightarrow> is_valid kdf h p = Inl UnicodeEncodeError)"
proof (cases "encodable p")
  case True
  from encode_utf8_ok[OF True] obtain pw where "encode_utf8 p = Inr pw" ..
  with True show ?thesis
    by (auto simp: is_valid_def checkpw_def hashpw_def)
next
  case False
  then show ?thesis
    by (simp add: is_valid_def encode_utf8_fails)
qed

lemma plain_name_literal: "list_all plain_name fields \<Longrightarrow> list_all literal_name fields"
  by (auto simp: plain_name_def literal_name_def list_all_iff)

lemma plain_name_no_equals: "list_all plain_name fields \<Longrightarrow> no_equals fields"
  by (auto simp: plain_name_def no_equals_def list_all_iff)

lemma alphanumeric_plain:
  "list_all (\<lambda>c. ascii_letter c \<or> ascii_digit c) f \<Longrightarrow> plain_name f"
  by (auto simp: plain_name_def metachar_def backslash_def ascii_letter_def ascii_digit_def
      list_all_iff Let_def)

lemma filter_datum_entry:
  assumes "fields \<noteq> []" and "list_all plain_name fields"
    and "list_all (\<lambda>f. sep \<notin> set f) fields"
    and "backslash \<notin> set redaction" and "sep \<noteq> backslash" and "sep \<noteq> CHR ''=''"
    and "f \<in> set fields" and "sep \<notin> set v"
    and "a = [] \<or> last a = sep" and "CHR ''='' \<notin> set w" and "b = [] \<or> hd b = sep"
  shows "filter_datum fields redaction (a @ w @ f @ ''='' @ v @ b) [sep] =
         Inr (redact_spec fields redaction sep a @ w @ f @ ''='' @ redaction @
              redact_spec fields redaction sep b)"
proof -
  have lit: "list_all literal_name fields"
    using assms(2) by (rule plain_name_literal)
  have "filter_datum fields redaction (a @ w @ f @ ''='' @ v @ b) [sep] =
        Inr (redact_spec fields redaction sep (a @ w @ f @ ''='' @ v @ b))"
    using assms(1) lit assms(4,5) by (rule filter_datum_literal)
  also have "redact_spec fields redaction sep (a @ w @ f @ ''='' @ v @ b) =
        redact_spec fields redaction sep a @ redact_spec fields redaction sep (w @ f @ ''='' @ v @ b)"
    using assms(3,6,9) by (rule redact_spec_append)
  also have "redact_spec fields redaction sep (w @ f @ ''='' @ v @ b) =
        w @ f @ ''='' @ redaction @ redact_spec fields redaction sep b"
    using redact_spec_entry[OF plain_name_no_equals[OF assms(2)] assms(7,10,8,11), of redaction] by simp
  finally show ?thesis .
qed

section \<open>The claims about \<open>filter_datum\<close>\<close>

text \<open>
  C2. The claim: with an empty field list \<open>filter_datum\<close> returns the message unchanged,
  in particular \<open>filter_datum([], "***", "name=Bob;", ";") == "name=Bob;"\<close>. The code
  does otherwise: \<open>'|'.join([])\<close> is the empty string, the pattern becomes
  \<open>(?P<field>)=[^;]*\<close>, whose group matches the empty text in front of any \<open>=\<close>,
  and the value behind every \<open>=\<close> is redacted.
\<close>

theorem filter_datum_empty_fields_redacts:
  "filter_datum [] ''***'' ''name=Bob;'' '';'' = Inr ''name=***;''"
  by code_simp

text \<open>
  C3. The claim: a listed field name that occurs only inside a longer key does not match,
  so that the value of the longer key stays. The code does otherwise: the pattern
  \<open>(?P<field>name)=[^;]*\<close> has nothing in front of the name that would hold it to the
  start of a key, so it matches the text \<open>name=Bob\<close> inside \<open>username=Bob\<close>, and the value
  of the key \<open>username\<close>, which is not in the list, is redacted. The same happens with the
  field list of the program, \<open>PII_FIELDS\<close>.
\<close>

theorem filter_datum_suffix_match:
  "filter_datum [''name''] ''***'' ''username=Bob;'' '';'' = Inr ''username=***;'' \<and>
   filter_datum PII_FIELDS ''***'' ''username=Bob; name=Al;'' '';'' = Inr ''username=***; name=***;''"
  by code_simp

text \<open>
  C4. The claim: for every list of literal field names, every redaction token, every
  separator character and every message, \<open>filter_datum\<close> replaces the value behind each
  \<open>fieldname=\<close> by the token. The token and the separator go into the template and the
  pattern unescaped, and the empty list gives a pattern of its own, so this holds for a
  list that is not empty, a token without a backslash and a separator other than the
  backslash: there \<open>filter_datum\<close> computes \<open>redact_spec\<close>.
\<close>

theorem filter_datum_refines:
  assumes "fields \<noteq> []" and "list_all literal_name fields"
    and "backslash \<notin> set redaction" and "sep \<noteq> backslash"
  shows "filter_datum fields redaction message [sep] = Inr (redact_spec fields redaction sep message)"
  using assms by (rule filter_datum_literal)

theorem filter_datum_refines_witness:
  "filter_datum [''password''] ''***'' ''password=secret123;'' '';'' = Inr ''password=***;'' \<and>
   filter_datum [''name'', ''email''] ''xxx'' ''name=Bob;email=b@x.com;age=5;'' '';'' =
     Inr ''name=xxx;email=xxx;age=5;''"
  using filter_datum_refines[of "[''password'']" "''***''" "CHR '';''" "''password=secret123;''"]
    filter_datum_refines[of "[''name'', ''email'']" "''xxx''" "CHR '';''" "''name=Bob;email=b@x.com;age=5;''"]
  by (simp add: literal_name_def metachar_def backslash_def field_at_def)

text \<open>
  With the backslash as separator the pattern is \<open>(?P<field>password)=[^\]*\<close>, whose
  character set is not closed: \<open>re\<close> raises an error.
\<close>

theorem filter_datum_backslash_separator:
  "filter_datum [''password''] ''***'' ''password=secret123;'' [CHR 0x5C] = Inl ReError"
  by code_simp

text \<open>
  C7. A field that appears several times in a message is redacted at every occurrence,
  each on its own. For a list, not empty, of field names without a special character of
  \<open>re\<close>, without \<open>=\<close> and without the separator, take any occurrence \<open>f=v\<close> of a
  listed field \<open>f\<close> in a message \<open>a w f=v b\<close>: the text \<open>a\<close> in front is empty or ends
  with a separator, \<open>w\<close> is the blanks between that separator and the field name, the
  value \<open>v\<close> has no separator in it, and the text \<open>b\<close> behind is empty or starts with a
  separator. Then the value \<open>v\<close> is replaced by the token, and \<open>a\<close> and \<open>b\<close>, with all
  the other occurrences in them, come out as \<open>filter_datum\<close> returns them when it is given
  \<open>a\<close> or \<open>b\<close> alone. With the occurrences \<open>id=1\<close> and \<open>id=2\<close> this gives
  \<open>filter_datum(["id"], "*", "id=1;id=2;", ";") == "id=*;id=*;"\<close>.
\<close>

theorem filter_datum_every_occurrence:
  assumes "fields \<noteq> []" and "list_all plain_name fields"
    and "list_all (\<lambda>f. sep \<notin> set f) fields"
    and "backslash \<notin> set redaction" and "sep \<noteq> backslash" and "sep \<noteq> CHR ''=''"
    and "f \<in> set fields" and "sep \<notin> set v"
    and "a = [] \<or> last a = sep" and "list_all (\<lambda>c. c = CHR '' '') w" and "b = [] \<or> hd b = sep"
  shows "\<exists>ra rb. filter_datum fields redaction a [sep] = Inr ra \<and>
           filter_datum fields redaction b [sep] = Inr rb \<and>
           filter_datum fields redaction (a @ w @ f @ ''='' @ v @ b) [sep] =
             Inr (ra @ w @ f @ ''='' @ redaction @ rb)"
proof -
  have lit: "list_all literal_name fields"
    using assms(2) by (rule plain_name_literal)
  have w: "CHR ''='' \<notin> set w"
    using assms(10) by (auto simp: list_all_iff)
  have "filter_datum fields redaction a [sep] = Inr (redact_spec fields redaction sep a)"
    using assms(1) lit assms(4,5) by (rule filter_datum_literal)
  moreover have "filter_datum fields redaction b [sep] = Inr (redact_spec fields redaction sep b)"
    using assms(1) lit assms(4,5) by (rule filter_datum_literal)
  moreover note filter_datum_entry[OF assms(1-9) w assms(11)]
  ultimately show ?thesis by blast
qed

theorem filter_datum_every_occurrence_witness:
  "filter_datum [''id''] ''*'' ''id=1;id=2;'' '';'' = Inr ''id=*;id=*;'' \<and>
   filter_datum PII_FIELDS ''***'' ''name=Bob; ssn=1; name=Al;'' '';'' =
     Inr ''name=***; ssn=***; name=***;''"
proof -
  have e: "filter_datum [''id''] ''*'' [] '';'' = Inr []"
    and b: "filter_datum [''id''] ''*'' '';'' '';'' = Inr '';''"
    and c: "filter_datum PII_FIELDS ''***'' ''name=Bob; ssn=1;'' '';'' = Inr ''name=***; ssn=***;''"
    and d: "filter_datum PII_FIELDS ''***'' '';'' '';'' = Inr '';''"
    by code_simp+
  from filter_datum_every_occurrence[of "[''id'']" "CHR '';''" "''*''" "''id''" "''1''" "[]" "[]" "'';''"]
    e b
  have a: "filter_datum [''id''] ''*'' ''id=1;'' '';'' = Inr ''id=*;''"
    by (simp add: plain_name_def metachar_def backslash_def)
  from filter_datum_every_occurrence[of "[''id'']" "CHR '';''" "''*''" "''id''" "''2''" "''id=1;''" "[]" "'';''"]
    filter_datum_every_occurrence[of PII_FIELDS "CHR '';''" "''***''" "''name''" "''Al''" "''name=Bob; ssn=1;''" "'' ''" "'';''"]
    a b c d
  show ?thesis
    by (simp add: PII_FIELDS_def plain_name_def metachar_def backslash_def)
qed

text \<open>
  C9. Field names go into the pattern unescaped: the field name \<open>(\<close> makes the pattern
  fail to compile, and the field name \<open>a|b\<close> is read as two alternatives, so that the
  value of \<open>a\<close> is redacted, where the name taken literally leaves the message as it is.
\<close>

theorem filter_datum_metacharacters_unescaped:
  "filter_datum [''(''] ''***'' ''a=1;'' '';'' = Inl ReError \<and>
   filter_datum [''a|b''] ''***'' ''a=1;'' '';'' = Inr ''a=***;'' \<and>
   redact_spec [''a|b''] ''***'' CHR '';'' ''a=1;'' = ''a=1;''"
  by code_simp

text \<open>
  C10. Redaction with the token \<open>***\<close> and the separator \<open>;\<close> is idempotent: for a list,
  not empty, of field names without a special character of \<open>re\<close> and without \<open>=\<close> (every
  alphanumeric name is one), \<open>filter_datum\<close> returns a message that a second
  \<open>filter_datum\<close> returns unchanged.
\<close>

theorem filter_datum_idempotent:
  assumes "fields \<noteq> []" and "list_all plain_name fields"
  shows "\<exists>r. filter_datum fields ''***'' m '';'' = Inr r \<and> filter_datum fields ''***'' r '';'' = Inr r"
proof -
  let ?r = "redact_spec fields ''***'' CHR '';'' m"
  have lit: "list_all literal_name fields"
    using assms(2) by (rule plain_name_literal)
  have b: "backslash \<notin> set ''***''" "CHR '';'' \<noteq> backslash"
    by (simp_all add: backslash_def)
  have "filter_datum fields ''***'' m '';'' = Inr ?r"
    using assms(1) lit b by (rule filter_datum_literal)
  moreover have "filter_datum fields ''***'' ?r '';'' = Inr (redact_spec fields ''***'' CHR '';'' ?r)"
    using assms(1) lit b by (rule filter_datum_literal)
  moreover have "redact_spec fields ''***'' CHR '';'' ?r = ?r"
    by (rule redact_idem[OF plain_name_no_equals[OF assms(2)]]) simp_all
  ultimately show ?thesis by simp
qed

theorem filter_datum_idempotent_witness:
  "\<exists>r. filter_datum PII_FIELDS ''***'' ''name=Bob;ssn=1;'' '';'' = Inr r \<and>
       filter_datum PII_FIELDS ''***'' r '';'' = Inr r"
  using filter_datum_idempotent[of PII_FIELDS "''name=Bob;ssn=1;''"]
  by (simp add: PII_FIELDS_def plain_name_def metachar_def backslash_def)

section \<open>The claim about the formatter\<close>

text \<open>
  C6. \<open>RedactingFormatter.format\<close> renders the record through the template and then
  applies \<open>filter_datum\<close> to the rendered text, with the fields of the formatter, the
  token \<open>***\<close> and the separator \<open>;\<close>; an exception raised while rendering is passed on.
\<close>

theorem RedactingFormatter_format_redacts_rendered:
  "RedactingFormatter_format render fields record =
     (case render ''[HOLBERTON] %(name)s %(levelname)s %(asctime)-15s: %(message)s'' record of
        Inl e \<Rightarrow> Inl e
      | Inr rendered \<Rightarrow> filter_datum fields ''***'' rendered '';'')"
  unfolding RedactingFormatter_format_def FORMAT_def REDACTION_def SEPARATOR_def ..

section \<open>The claims about the password functions\<close>

text \<open>
  C1. The claim: \<open>is_valid\<close> returns a boolean for every stored hash and every password
  and never raises. \<open>is_valid\<close> has no exception handler. What holds: it returns a boolean
  when the password can be encoded and the stored hash starts with a well-formed
  identifier, cost and salt; for any other stored hash it raises the \<open>ValueError\<close> of the
  verification, and for a password with a surrogate code point the \<open>UnicodeEncodeError\<close>
  of \<open>encode\<close>.
\<close>

theorem is_valid_result:
  "(encodable p \<and> read_setting h \<noteq> None \<longrightarrow> (\<exists>b. is_valid kdf h p = Inr b)) \<and>
   (encodable p \<and> read_setting h = None \<longrightarrow> is_valid kdf h p = Inl ValueError) \<and>
   (\<not> encodable p \<longrightarrow> is_valid kdf h p = Inl UnicodeEncodeError)"
  by (rule is_valid_outcomes)

theorem is_valid_result_witness:
  "(\<exists>b. is_valid (\<lambda>s p. p) ''$2b$12$abcdefghijklmnopqrstuvABCDEFGHIJKLMNOPQRSTUVWXYZ01234'' [112, 119] = Inr b) \<and>
   is_valid (\<lambda>s p. p) ''not a hash'' [112, 119] = Inl ValueError \<and>
   is_valid (\<lambda>s p. p) ''not a hash'' [0xD800] = Inl UnicodeEncodeError"
  using is_valid_result[of "[112, 119]" "''$2b$12$abcdefghijklmnopqrstuvABCDEFGHIJKLMNOPQRSTUVWXYZ01234''" "\<lambda>s p. p"]
    is_valid_result[of "[112, 119]" "''not a hash''" "\<lambda>s p. p"]
    is_valid_result[of "[0xD800]" "''not a hash''" "\<lambda>s p. p"]
  by (simp add: encodable_def surrogate_def read_setting_def valid_salt_def salt_char_def
      ascii_letter_def ascii_digit_def digit_value_def)

text \<open>
  The empty stored hash makes \<open>is_valid\<close> raise \<open>ValueError\<close>, and the password
  \<open>"\ud800"\<close> makes it raise \<open>UnicodeEncodeError\<close> whatever the stored hash is.
\<close>

theorem is_valid_raises:
  "is_valid (\<lambda>s p. p) [] [112, 119] = Inl ValueError \<and>
   is_valid (\<lambda>s p. p) ''$2b$12$abcdefghijklmnopqrstuvABCDEFGHIJKLMNOPQRSTUVWXYZ01234'' [0xD800] =
     Inl UnicodeEncodeError"
  by (simp add: is_valid_def checkpw_def hashpw_def read_setting_def utf8_char_def surrogate_def)

text \<open>
  C5. The claim: \<open>is_valid(hash_password(P), P)\<close> is true for every password \<open>P\<close>. It
  holds for every password that can be encoded as UTF-8, whatever salt is drawn; for a
  password with a surrogate code point \<open>hash_password\<close> raises.
\<close>

theorem verify_fresh_hash_true:
  assumes "valid_salt r" and "encodable P"
  shows "verify_fresh_hash kdf r P = Inr True"
  using assms by (rule verify_own_hash)

theorem verify_fresh_hash_true_witness:
  "verify_fresh_hash (\<lambda>s p. p) ''abcdefghijklmnopqrstuv'' [112, 119] = Inr True"
  using verify_fresh_hash_true[of "''abcdefghijklmnopqrstuv''" "[112, 119]" "\<lambda>s p. p"]
  by (simp add: valid_salt_def salt_char_def ascii_letter_def ascii_digit_def encodable_def
      surrogate_def)

theorem verify_fresh_hash_surrogate:
  "verify_fresh_hash (\<lambda>s p. p) ''abcdefghijklmnopqrstuv'' [0xD800] = Inl UnicodeEncodeError"
  by (simp add: verify_fresh_hash_def hash_password_def utf8_char_def surrogate_def)




end
